theory Spec2Isabelle
  imports
    Main
    "HOL-Library.Char_ord"
    "HOL-Library.List_Lexorder"
    "HOL-Library.Product_Lexorder"
    "HOL-Library.Multiset"
begin

section \<open>Python values used by the scripts\<close>

text \<open>
  Python \<open>str\<close> values are modelled as \<open>string\<close> (lists of 8-bit characters), Python
  \<open>int\<close> values as \<open>int\<close>. Strings are compared the way Python compares them:
  lexicographically by character code, a proper prefix being smaller
  (the orders of \<open>Char_ord\<close> and \<open>List_Lexorder\<close>); tuples are compared
  component by component from the left (\<open>Product_Lexorder\<close>).
\<close>

datatype py_error = KeyError string | TypeError

subsection \<open>\<open>str(int)\<close> and \<open>sep.join(xs)\<close>\<close>

definition digit_char :: "nat \<Rightarrow> char" where
  "digit_char d = ''0123456789'' ! d"

fun str_nat :: "nat \<Rightarrow> string" where
  "str_nat n = (if n < 10 then [digit_char n] else str_nat (n div 10) @ [digit_char (n mod 10)])"

declare str_nat.simps [simp del]

definition py_str :: "int \<Rightarrow> string" where
  "py_str i = (if i < 0 then CHR ''-'' # str_nat (nat (- i)) else str_nat (nat i))"

lemma py_str_examples:
  "py_str 0 = ''0''" "py_str 3725 = ''3725''" "py_str (- 12) = ''-12''"
  by code_simp+


subsection \<open>\<open>s.replace(old, new)\<close> and \<open>k in s\<close>\<close>

text \<open>
  \<open>str.replace\<close> replaces every occurrence of \<open>old\<close>, scanning from the left and
  continuing after each replaced occurrence. With an empty \<open>old\<close> Python puts \<open>new\<close>
  before every character and at the end.
\<close>

function str_replace :: "string \<Rightarrow> string \<Rightarrow> string \<Rightarrow> string" where
  "str_replace old new s =
     (if old = [] then new @ concat (map (\<lambda>c. c # new) s)
      else case s of
        [] \<Rightarrow> []
      | c # cs \<Rightarrow>
          if take (length old) s = old then new @ str_replace old new (drop (length old) s)
          else c # str_replace old new cs)"
  by pat_completeness auto
termination
  by (relation "measure (\<lambda>(old, new, s). length s)") auto

declare str_replace.simps [simp del]


subsection \<open>\<open>os.path.join(a, b)\<close>\<close>

definition path_join :: "string \<Rightarrow> string \<Rightarrow> string" where
  "path_join a b =
     (if take 1 b = ''/'' then b
      else if a = [] \<or> last a = CHR ''/'' then a @ b
      else a @ ''/'' @ b)"

subsection \<open>Regular expressions of the \<open>re\<close> module\<close>

text \<open>
  The patterns of the scripts use literal text, \<open>.\<close> (any character but a newline),
  \<open>\d\<close>, a character set, \<open>$\<close>, sequencing, \<open>|\<close>, the greedy \<open>?\<close> and \<open>+\<close>, and
  numbered groups. Characters being 8-bit, \<open>\d\<close> is one of \<open>0\<close> to \<open>9\<close>.

  \<open>rmatch r s g\<close> matches \<open>r\<close> at the start of \<open>s\<close>, with the groups \<open>g\<close> captured so far
  (the latest first). It returns every way to match, in the order in which the
  backtracking matcher of \<open>re\<close> tries them: each is the text left after the match with
  the groups captured on the way. The first element is the match \<open>re\<close> reports.
  \<open>$\<close> matches at the end of the text and before a newline that ends it.
\<close>

datatype regex =
    Str string
  | Dot
  | Digit
  | OneOf "char list"
  | Eol
  | Seq regex regex
  | Alt regex regex
  | Opt regex
  | Plus regex
  | Grp nat regex

definition is_digit :: "char \<Rightarrow> bool" where
  "is_digit c = (c \<in> set ''0123456789'')"

definition newline :: char where
  "newline = CHR 0x0A"

type_synonym captures = "(nat \<times> string) list"

function (sequential) rmatch :: "regex \<Rightarrow> string \<Rightarrow> captures \<Rightarrow> (string \<times> captures) list" where
  "rmatch (Str w) s g = (if take (length w) s = w then [(drop (length w) s, g)] else [])"
| "rmatch Dot s g = (case s of [] \<Rightarrow> [] | x # xs \<Rightarrow> if x \<noteq> newline then [(xs, g)] else [])"
| "rmatch Digit s g = (case s of [] \<Rightarrow> [] | x # xs \<Rightarrow> if is_digit x then [(xs, g)] else [])"
| "rmatch (OneOf cs) s g = (case s of [] \<Rightarrow> [] | x # xs \<Rightarrow> if x \<in> set cs then [(xs, g)] else [])"
| "rmatch Eol s g = (if s = [] \<or> s = [newline] then [(s, g)] else [])"
| "rmatch (Seq a b) s g = concat (map (\<lambda>(s', g'). rmatch b s' g') (rmatch a s g))"
| "rmatch (Alt a b) s g = rmatch a s g @ rmatch b s g"
| "rmatch (Opt a) s g = rmatch a s g @ [(s, g)]"
| "rmatch (Plus a) s g =
     concat (map (\<lambda>(s', g'). (if length s' < length s then rmatch (Plus a) s' g' else []) @ [(s', g')])
                 (rmatch a s g))"
| "rmatch (Grp n a) s g =
     map (\<lambda>(s', g'). (s', (n, take (length s - length s') s) # g')) (rmatch a s g)"
  by pat_completeness auto
termination
  by (relation "measures [\<lambda>(r, s, g). size r, \<lambda>(r, s, g). length s]") auto

lemmas rmatch_Plus = rmatch.simps(9)

declare rmatch.simps(9) [simp del]

fun seqs :: "regex list \<Rightarrow> regex" where
  "seqs [] = Str []"
| "seqs [r] = r"
| "seqs (r # r' # rs) = Seq r (seqs (r' # rs))"

text \<open>
  \<open>re.search(pattern, s)\<close> tries the start positions from the left and reports the first
  match found: here the text from the start of the match on, the text after the match,
  and the groups. \<open>None\<close> is Python's \<open>None\<close>.
\<close>

fun re_search :: "regex \<Rightarrow> string \<Rightarrow> (string \<times> string \<times> captures) option" where
  "re_search r s =
     (case rmatch r s [] of
        (rest, g) # _ \<Rightarrow> Some (s, rest, g)
      | [] \<Rightarrow> (case s of [] \<Rightarrow> None | _ # s' \<Rightarrow> re_search r s'))"

declare re_search.simps [simp del]

text \<open>\<open>if re.search(pattern, s):\<close> the result is true when it is not \<open>None\<close>.\<close>

definition re_found :: "regex \<Rightarrow> string \<Rightarrow> bool" where
  "re_found r s = (re_search r s \<noteq> None)"

text \<open>\<open>m.group(n)\<close>: the text of group \<open>n\<close>, \<open>None\<close> for a group that took no part.\<close>

definition group :: "captures \<Rightarrow> nat \<Rightarrow> string option" where
  "group g n = map_of g n"

lemma rmatch_suffix:
  "(s', g') \<in> set (rmatch r s g) \<Longrightarrow> \<exists>w. s = w @ s'"
proof (induction r s g arbitrary: s' g' rule: rmatch.induct)
  case (1 w s g)
  then have "s' = drop (length w) s"
    by (auto split: if_splits)
  then have "s = take (length w) s @ s'"
    by simp
  then show ?case ..
next
  case (6 a b s g)
  from "6.prems" obtain s1 g1 where m1: "(s1, g1) \<in> set (rmatch a s g)"
    and m2: "(s', g') \<in> set (rmatch b s1 g1)"
    by auto
  from "6.IH"(1) [OF m1] obtain w1 where "s = w1 @ s1" by blast
  moreover from "6.IH"(2) [OF m1 _ m2] obtain w2 where "s1 = w2 @ s'" by auto
  ultimately have "s = (w1 @ w2) @ s'" by simp
  then show ?case by blast
next
  case (9 a s g)
  from "9.prems" have "(s', g') \<in> set (concat (map (\<lambda>(s', g').
      (if length s' < length s then rmatch (Plus a) s' g' else []) @ [(s', g')]) (rmatch a s g)))"
    by (subst (asm) rmatch_Plus)
  then obtain s1 g1 where m1: "(s1, g1) \<in> set (rmatch a s g)"
    and m2: "(length s1 < length s \<and> (s', g') \<in> set (rmatch (Plus a) s1 g1)) \<or> (s', g') = (s1, g1)"
    by (auto split: if_splits)
  from "9.IH"(1) [OF m1] obtain w1 where w1: "s = w1 @ s1" by blast
  from m2 show ?case
  proof
    assume a: "length s1 < length s \<and> (s', g') \<in> set (rmatch (Plus a) s1 g1)"
    from "9.IH"(2) [OF m1 _ _ conjunct2 [OF a]] a obtain w2 where "s1 = w2 @ s'" by auto
    with w1 have "s = (w1 @ w2) @ s'" by simp
    then show ?thesis by blast
  next
    assume "(s', g') = (s1, g1)"
    with w1 show ?thesis by blast
  qed
qed (auto split: list.splits if_splits)

lemma re_search_unfold:
  assumes "re_search r s = Some (m, rest, g)"
  shows "(m = s \<and> (\<exists>xs. rmatch r s [] = (rest, g) # xs))
       \<or> (rmatch r s [] = [] \<and> (\<exists>c cs. s = c # cs \<and> re_search r cs = Some (m, rest, g)))"
  using assms by (subst (asm) re_search.simps) (auto split: list.splits)

lemma re_search_suffix:
  "re_search r s = Some (m, rest, g) \<Longrightarrow> (\<exists>a. s = a @ m) \<and> (\<exists>w. m = w @ rest)"
proof (induction s)
  case Nil
  from re_search_unfold [OF Nil] obtain xs where "m = []" and "rmatch r [] [] = (rest, g) # xs"
    by auto
  then have "(rest, g) \<in> set (rmatch r m [])"
    by simp
  from rmatch_suffix [OF this] \<open>m = []\<close> show ?case
    by simp
next
  case (Cons c cs)
  from re_search_unfold [OF Cons.prems] show ?case
  proof
    assume "m = c # cs \<and> (\<exists>xs. rmatch r (c # cs) [] = (rest, g) # xs)"
    then obtain xs where m: "m = c # cs" and "rmatch r (c # cs) [] = (rest, g) # xs"
      by blast
    then have "(rest, g) \<in> set (rmatch r m [])"
      by simp
    from rmatch_suffix [OF this] m show ?thesis
      by simp
  next
    assume "rmatch r (c # cs) [] = [] \<and> (\<exists>c' cs'. c # cs = c' # cs' \<and> re_search r cs' = Some (m, rest, g))"
    then have "re_search r cs = Some (m, rest, g)"
      by simp
    from Cons.IH [OF this] obtain a where "cs = a @ m" and w: "\<exists>w. m = w @ rest"
      by blast
    then have "c # cs = (c # a) @ m"
      by simp
    with w show ?thesis
      by blast
  qed
qed

text \<open>
  \<open>re.sub(pattern, repl, s)\<close> with a plain replacement text: the matches are found from
  the left, each search starting where the match before ended; after an empty match
  the next character is copied and the search goes on behind it.
\<close>

function re_sub :: "regex \<Rightarrow> string \<Rightarrow> string \<Rightarrow> string" where
  "re_sub r repl s =
     (case re_search r s of
        None \<Rightarrow> s
      | Some (m, rest, g) \<Rightarrow>
          take (length s - length m) s @ repl @
            (if length rest < length m then re_sub r repl rest
             else case rest of [] \<Rightarrow> [] | c # cs \<Rightarrow> c # re_sub r repl cs))"
  by pat_completeness auto
termination
proof (relation "measure (\<lambda>(r, repl, s). length s)", goal_cases)
  case 1
  show ?case by simp
next
  case (2 r repl s x2 m y rest g)
  then have "re_search r s = Some (m, rest, g)" by simp
  from re_search_suffix [OF this] 2 show ?case by auto
next
  case (3 r repl s x2 m y rest g c cs)
  then have "re_search r s = Some (m, rest, g)" by simp
  from re_search_suffix [OF this] 3 show ?case by auto
qed

declare re_sub.simps [simp del]

section \<open>\<open>utils.py\<close>\<close>


section \<open>\<open>s01_generate_sarek_fastq_input.py\<close>\<close>

subsection \<open>Configuration\<close>

text \<open>
  \<^verbatim>\<open>
  r1_patterns = [
      r"(.+)_1(_\d+)?\.f(ast)?q(\.gz)?$",
      r"(.+)_R1(_\d+)?\.f(ast)?q(\.gz)?$"
  ]
  r2_subs = [
      ("_1", "_2"),
      ("_R1", "_R2")
  ]
  \<close>
\<close>

definition r1_patterns :: "regex list" where
  "r1_patterns =
     [seqs [Grp 1 (Plus Dot), Str ''_1'', Opt (Grp 2 (Seq (Str ''_'') (Plus Digit))),
            Str ''.f'', Opt (Grp 3 (Str ''ast'')), Str ''q'', Opt (Grp 4 (Str ''.gz'')), Eol],
      seqs [Grp 1 (Plus Dot), Str ''_R1'', Opt (Grp 2 (Seq (Str ''_'') (Plus Digit))),
            Str ''.f'', Opt (Grp 3 (Str ''ast'')), Str ''q'', Opt (Grp 4 (Str ''.gz'')), Eol]]"

definition r2_subs :: "(string \<times> string) list" where
  "r2_subs = [(''_1'', ''_2''), (''_R1'', ''_R2'')]"

text \<open>The patterns written inside \<open>collect_samples\<close>:
  \<^verbatim>\<open>r"_L(\d+)[._]"\<close>,
  \<^verbatim>\<open>r"(_L\d+)?(_R?1)(_00\d)?\.f(ast)?q(\.gz)?$"\<close> and
  \<^verbatim>\<open>r"(_1(_\d+)?\.f(ast)?q)|(_R1(_\d+)?\.f(ast)?q)"\<close>.\<close>

definition lane_pattern :: regex where
  "lane_pattern = seqs [Str ''_L'', Grp 1 (Plus Digit), OneOf ''._'']"

definition suffix_pattern :: regex where
  "suffix_pattern =
     seqs [Opt (Grp 1 (Seq (Str ''_L'') (Plus Digit))),
           Grp 2 (seqs [Str ''_'', Opt (Str ''R''), Str ''1'']),
           Opt (Grp 3 (Seq (Str ''_00'') Digit)),
           Str ''.f'', Opt (Grp 4 (Str ''ast'')), Str ''q'', Opt (Grp 5 (Str ''.gz'')), Eol]"

definition looks_like_r1_pattern :: regex where
  "looks_like_r1_pattern =
     Alt (Grp 1 (seqs [Str ''_1'', Opt (Grp 2 (Seq (Str ''_'') (Plus Digit))),
                       Str ''.f'', Opt (Grp 3 (Str ''ast'')), Str ''q'']))
         (Grp 4 (seqs [Str ''_R1'', Opt (Grp 5 (Seq (Str ''_'') (Plus Digit))),
                       Str ''.f'', Opt (Grp 6 (Str ''ast'')), Str ''q'']))"

subsection \<open>\<open>collect_samples\<close>\<close>

text \<open>
  The file system is what \<open>os.walk\<close> and \<open>os.path.exists\<close> answer: the walk is the list
  of the directories it visits, each with the names of its files in the order the
  system lists them (the subdirectory names are not used), and \<open>exists\<close> tells of a
  path whether it exists.

  The function appends to two lists and logs warnings; the state below holds the two
  lists and the warnings logged so far. A sample is the tuple
  \<open>(sample_name, lane, path, r2_path)\<close>.
\<close>

type_synonym sample = "string \<times> string \<times> string \<times> string"

type_synonym walk = "(string \<times> string list) list"

datatype warning =
    No_matching_R2 string string  \<comment> \<open>R1 file '{f}' has no matching R2 in {root}\<close>
  | Looks_like_R1 string          \<comment> \<open>File '{f}' looks like R1 but does not match expected pattern\<close>

record scan =
  samples :: "sample list"
  unmatched_r1 :: "string list"
  warnings :: "warning list"

text \<open>
  \<^verbatim>\<open>
  lane_match = re.search(r"_L(\d+)[._]", f)
  lane = lane_match.group(1) if lane_match else "1"
  \<close>
  Group 1 takes part in every match of the pattern (lemma \<open>lane_group_defined\<close>), so
  \<open>group(1)\<close> is never \<open>None\<close> here.
\<close>

definition lane_of :: "string \<Rightarrow> string" where
  "lane_of f =
     (case re_search lane_pattern f of
        None \<Rightarrow> ''1''
      | Some (m, rest, g) \<Rightarrow> (case group g 1 of Some d \<Rightarrow> d | None \<Rightarrow> []))"

text \<open>
  \<^verbatim>\<open>
  sample_name = re.sub(r"(_L\d+)?(_R?1)(_00\d)?\.f(ast)?q(\.gz)?$", "", f)
  \<close>
\<close>

definition sample_name_of :: "string \<Rightarrow> string" where
  "sample_name_of f = re_sub suffix_pattern [] f"

text \<open>
  The loop over \<open>zip(r1_patterns, r2_subs)\<close> for one file: it stops at the first pattern
  that matches (\<open>break\<close>) and returns \<open>matched\<close> with the state.
\<close>

fun match_r1 :: "(string \<Rightarrow> bool) \<Rightarrow> string \<Rightarrow> string \<Rightarrow> (regex \<times> string \<times> string) list
    \<Rightarrow> scan \<Rightarrow> bool \<times> scan" where
  "match_r1 exists root f [] st = (False, st)"
| "match_r1 exists root f ((pattern, r1_tag, r2_tag) # rest) st =
     (if re_found pattern f then
        (let r2_file = str_replace r1_tag r2_tag f;
             r2_path = path_join root r2_file
         in if exists r2_path then
              (True, st\<lparr>samples := samples st @ [(sample_name_of f, lane_of f, path_join root f, r2_path)]\<rparr>)
            else
              (True, st\<lparr>unmatched_r1 := unmatched_r1 st @ [f],
                         warnings := warnings st @ [No_matching_R2 f root]\<rparr>))
      else match_r1 exists root f rest st)"

text \<open>The body of the loop over the files of one directory.\<close>

definition scan_file :: "(string \<Rightarrow> bool) \<Rightarrow> string \<Rightarrow> string \<Rightarrow> scan \<Rightarrow> scan" where
  "scan_file exists root f st =
     (case match_r1 exists root f (zip r1_patterns r2_subs) st of
        (matched, st') \<Rightarrow>
          if \<not> matched \<and> re_found looks_like_r1_pattern f
          then st'\<lparr>warnings := warnings st' @ [Looks_like_R1 f]\<rparr>
          else st')"

definition collect_samples :: "(string \<Rightarrow> bool) \<Rightarrow> walk \<Rightarrow> scan" where
  "collect_samples exists fastq_dir =
     fold (\<lambda>(root, files) st. fold (scan_file exists root) files st) fastq_dir
       \<lparr>samples = [], unmatched_r1 = [], warnings = []\<rparr>"

subsection \<open>\<open>write_csv\<close>\<close>

text \<open>
  The manifest is the list of the rows handed to \<open>csv.writer.writerow\<close>, a row being
  the list of its cells. \<open>write_csv\<close> returns the dictionary \<open>patient_ids\<close>; the model
  returns the rows written with it. A sample name missing from the dictionary would
  raise \<open>KeyError\<close>. The parameter \<open>samples\<close> of the source is \<open>ss\<close> here.
  \<^verbatim>\<open>
  patient_ids = {s: i+1 for i, s in enumerate(sorted({x[0] for x in samples}))}
  \<close>
\<close>

datatype cell = Int_cell int | Str_cell string

type_synonym row = "cell list"

definition patient_ids :: "sample list \<Rightarrow> (string \<rightharpoonup> int)" where
  "patient_ids ss =
     fold (\<lambda>(i, s) d. d(s \<mapsto> int i + 1)) (enumerate 0 (sort (remdups (map fst ss)))) Map.empty"

definition header_row :: row where
  "header_row = [Str_cell ''patient'', Str_cell ''sample'', Str_cell ''lane'',
                 Str_cell ''fastq_1'', Str_cell ''fastq_2'']"

fun write_rows :: "(string \<rightharpoonup> int) \<Rightarrow> sample list \<Rightarrow> row list \<Rightarrow> py_error + row list" where
  "write_rows ids [] out = Inr out"
| "write_rows ids ((sample_name, lane, r1, r2) # rest) out =
     (case ids sample_name of
        None \<Rightarrow> Inl (KeyError sample_name)
      | Some p \<Rightarrow>
          write_rows ids rest
            (out @ [[Int_cell p, Str_cell sample_name, Str_cell lane, Str_cell r1, Str_cell r2]]))"

definition write_csv :: "sample list \<Rightarrow> py_error + (row list \<times> (string \<rightharpoonup> int))" where
  "write_csv ss =
     (let ids = patient_ids ss
      in case write_rows ids (sort ss) [header_row] of
           Inl e \<Rightarrow> Inl e
         | Inr out \<Rightarrow> Inr (out, ids))"

text \<open>
  The two calls of \<open>main\<close>:
  \<^verbatim>\<open>
  samples, unmatched_r1 = collect_samples(fastq_dir)
  write_csv(samples, output_file)
  \<close>
\<close>

definition generate_manifest :: "(string \<Rightarrow> bool) \<Rightarrow> walk \<Rightarrow> py_error + (row list \<times> (string \<rightharpoonup> int))" where
  "generate_manifest exists fastq_dir = write_csv (samples (collect_samples exists fastq_dir))"

section \<open>\<open>s02_run_sarek_annotation.py\<close>\<close>

text \<open>
  What \<open>json.load\<close> returns: \<open>None\<close>, a \<open>bool\<close>, a number, a \<open>str\<close>, a \<open>list\<close> or a
  \<open>dict\<close>. Numbers are not looked into, their type is a parameter. A \<open>dict\<close> is the list
  of its items; only its keys matter below.
\<close>

datatype 'n json =
    JNull
  | JBool bool
  | JNum 'n
  | JStr string
  | JArr "'n json list"
  | JObj "(string \<times> 'n json) list"









section \<open>Notions used in the statements\<close>

text \<open>
  The empty state \<open>collect_samples\<close> starts from, the state that holds what two scans
  found one after the other, and the scan of a tree from any state.
\<close>

definition scan0 :: scan where
  "scan0 = \<lparr>samples = [], unmatched_r1 = [], warnings = []\<rparr>"

definition scan_append :: "scan \<Rightarrow> scan \<Rightarrow> scan" where
  "scan_append a b =
     \<lparr>samples = samples a @ samples b,
      unmatched_r1 = unmatched_r1 a @ unmatched_r1 b,
      warnings = warnings a @ warnings b\<rparr>"

definition scan_dirs :: "(string \<Rightarrow> bool) \<Rightarrow> walk \<Rightarrow> scan \<Rightarrow> scan" where
  "scan_dirs ex w st = fold (\<lambda>(root, files) st. fold (scan_file ex root) files st) w st"

text \<open>The files of a tree, each with its directory, in the order of the walk.\<close>

definition walk_files :: "walk \<Rightarrow> (string \<times> string) list" where
  "walk_files w = concat (map (\<lambda>(root, files). map (Pair root) files) w)"

text \<open>
  The name of the second-mate file that \<open>collect_samples\<close> looks up for a file \<open>f\<close>: the
  result of \<open>f.replace(r1_tag, r2_tag)\<close> for the first pattern that matches \<open>f\<close>, and
  \<open>None\<close> for a file that no pattern matches.
\<close>

fun first_r1_match :: "string \<Rightarrow> (regex \<times> string \<times> string) list \<Rightarrow> string option" where
  "first_r1_match f [] = None"
| "first_r1_match f ((pattern, r1_tag, r2_tag) # rest) =
     (if re_found pattern f then Some (str_replace r1_tag r2_tag f)
      else first_r1_match f rest)"

definition expected_r2_file :: "string \<Rightarrow> string option" where
  "expected_r2_file f = first_r1_match f (zip r1_patterns r2_subs)"


text \<open>
  The distinct sample names in order, and what makes \<open>r\<close> the manifest row of a sample
  under the patient identifiers \<open>ids\<close>.
\<close>

definition sample_names :: "sample list \<Rightarrow> string list" where
  "sample_names ss = sort (remdups (map fst ss))"

definition data_row :: "(string \<rightharpoonup> int) \<Rightarrow> row \<Rightarrow> sample \<Rightarrow> bool" where
  "data_row ids r x \<longleftrightarrow>
     (case x of (sample_name, lane, r1, r2) \<Rightarrow>
        \<exists>p. ids sample_name = Some p \<and>
            r = [Int_cell p, Str_cell sample_name, Str_cell lane, Str_cell r1, Str_cell r2])"


section \<open>Properties of \<open>format_runtime\<close>\<close>





section \<open>The scan of \<open>collect_samples\<close> file by file\<close>

text \<open>
  Scanning a file only appends to the state, and what it appends does not depend on
  the state: the result of a scan is the results of its files, one after the other.
\<close>

lemma scan_append_simps [simp]:
  "samples (scan_append a b) = samples a @ samples b"
  "unmatched_r1 (scan_append a b) = unmatched_r1 a @ unmatched_r1 b"
  "warnings (scan_append a b) = warnings a @ warnings b"
  by (simp_all add: scan_append_def)

lemma scan0_simps [simp]:
  "samples scan0 = []" "unmatched_r1 scan0 = []" "warnings scan0 = []"
  by (simp_all add: scan0_def)

lemma scan_append_scan0 [simp]: "scan_append st scan0 = st" "scan_append scan0 st = st"
  by (simp_all add: scan_append_def scan0_def)

lemma scan_append_assoc: "scan_append (scan_append a b) c = scan_append a (scan_append b c)"
  by (simp add: scan_append_def)

lemma match_r1_append:
  "match_r1 ex root f ps st =
     (fst (match_r1 ex root f ps scan0), scan_append st (snd (match_r1 ex root f ps scan0)))"
proof (induction ps)
  case Nil
  show ?case by simp
next
  case (Cons p ps)
  obtain pattern r1_tag r2_tag where p: "p = (pattern, r1_tag, r2_tag)"
    by (cases p)
  show ?case
  proof (cases "re_found pattern f")
    case True
    then show ?thesis
      unfolding p by (simp add: Let_def scan_append_def scan0_def)
  next
    case False
    then show ?thesis
      unfolding p using Cons.IH by simp
  qed
qed

lemma scan_file_append:
  "scan_file ex root f st = scan_append st (scan_file ex root f scan0)"
proof -
  obtain m r where r: "match_r1 ex root f (zip r1_patterns r2_subs) scan0 = (m, r)"
    by (cases "match_r1 ex root f (zip r1_patterns r2_subs) scan0")
  have "match_r1 ex root f (zip r1_patterns r2_subs) st = (m, scan_append st r)"
    by (subst match_r1_append) (simp add: r)
  then show ?thesis
    by (simp add: scan_file_def r scan_append_def)
qed

lemma fold_scan_file_append:
  "fold (scan_file ex root) fs st = scan_append st (fold (scan_file ex root) fs scan0)"
proof (induction fs arbitrary: st)
  case Nil
  show ?case by simp
next
  case (Cons f fs)
  have "fold (scan_file ex root) (f # fs) st
      = scan_append (scan_file ex root f st) (fold (scan_file ex root) fs scan0)"
    using Cons.IH [of "scan_file ex root f st"] by simp
  also have "\<dots> = scan_append st (scan_append (scan_file ex root f scan0) (fold (scan_file ex root) fs scan0))"
    by (subst scan_file_append) (simp add: scan_append_assoc)
  also have "\<dots> = scan_append st (fold (scan_file ex root) (f # fs) scan0)"
    using Cons.IH [of "scan_file ex root f scan0"] by simp
  finally show ?case .
qed

lemma scan_dirs_append:
  "scan_dirs ex w st = scan_append st (scan_dirs ex w scan0)"
proof (induction w arbitrary: st)
  case Nil
  show ?case by (simp add: scan_dirs_def)
next
  case (Cons d w)
  obtain root files where d: "d = (root, files)" by (cases d)
  have "scan_dirs ex (d # w) st = scan_dirs ex w (fold (scan_file ex root) files st)"
    by (simp add: scan_dirs_def d)
  also have "\<dots> = scan_append (fold (scan_file ex root) files st) (scan_dirs ex w scan0)"
    by (rule Cons.IH)
  also have "\<dots> = scan_append st (scan_append (fold (scan_file ex root) files scan0) (scan_dirs ex w scan0))"
    by (subst fold_scan_file_append) (simp add: scan_append_assoc)
  also have "\<dots> = scan_append st (scan_dirs ex w (fold (scan_file ex root) files scan0))"
    by (subst (2) Cons.IH) simp
  also have "\<dots> = scan_append st (scan_dirs ex (d # w) scan0)"
    by (simp add: scan_dirs_def d)
  finally show ?case .
qed

lemma collect_samples_scan_dirs: "collect_samples ex w = scan_dirs ex w scan0"
  by (simp add: collect_samples_def scan_dirs_def scan0_def)

lemma collect_samples_Nil: "collect_samples ex [] = scan0"
  by (simp add: collect_samples_def scan0_def)

lemma collect_samples_app:
  "collect_samples ex (w1 @ w2) = scan_append (collect_samples ex w1) (collect_samples ex w2)"
proof -
  have "scan_dirs ex (w1 @ w2) scan0 = scan_dirs ex w2 (scan_dirs ex w1 scan0)"
    by (simp add: scan_dirs_def)
  then show ?thesis
    by (simp add: collect_samples_scan_dirs scan_dirs_append [of ex w2 "scan_dirs ex w1 scan0"])
qed

lemma collect_samples_dir_app:
  "collect_samples ex [(root, fs1 @ fs2)]
     = scan_append (collect_samples ex [(root, fs1)]) (collect_samples ex [(root, fs2)])"
proof -
  have "fold (scan_file ex root) (fs1 @ fs2) scan0
      = fold (scan_file ex root) fs2 (fold (scan_file ex root) fs1 scan0)"
    by simp
  then show ?thesis
    by (simp add: collect_samples_scan_dirs scan_dirs_def
        fold_scan_file_append [of ex root fs2 "fold (scan_file ex root) fs1 scan0"])
qed

lemma collect_samples_file: "collect_samples ex [(root, [f])] = scan_file ex root f scan0"
  by (simp add: collect_samples_scan_dirs scan_dirs_def)

lemma collect_samples_two_files:
  "collect_samples ex [(root, [f1, f2])] = scan_append (scan_file ex root f1 scan0) (scan_file ex root f2 scan0)"
  using collect_samples_dir_app [of ex root "[f1]" "[f2]"] by (simp add: collect_samples_file)

lemma collect_samples_split:
  "collect_samples ex (pre @ [(root, fs1 @ [f] @ fs2)] @ post)
     = scan_append (collect_samples ex (pre @ [(root, fs1)]))
         (scan_append (scan_file ex root f scan0) (collect_samples ex ([(root, fs2)] @ post)))"
  by (simp only: collect_samples_app collect_samples_dir_app collect_samples_file scan_append_assoc)

lemma collect_samples_skip:
  "collect_samples ex (pre @ [(root, fs1 @ fs2)] @ post)
     = scan_append (collect_samples ex (pre @ [(root, fs1)])) (collect_samples ex ([(root, fs2)] @ post))"
  by (simp only: collect_samples_app collect_samples_dir_app scan_append_assoc)

text \<open>What the scan of one file gives, by the name looked up for it.\<close>

lemma match_r1_first_Some:
  assumes "first_r1_match f ps = Some r2"
  shows "match_r1 ex root f ps st =
     (if ex (path_join root r2)
      then (True, st\<lparr>samples := samples st @ [(sample_name_of f, lane_of f, path_join root f, path_join root r2)]\<rparr>)
      else (True, st\<lparr>unmatched_r1 := unmatched_r1 st @ [f], warnings := warnings st @ [No_matching_R2 f root]\<rparr>))"
  using assms
proof (induction ps)
  case Nil
  then show ?case by simp
next
  case (Cons p ps)
  obtain pattern r1_tag r2_tag where p: "p = (pattern, r1_tag, r2_tag)"
    by (cases p)
  show ?case
  proof (cases "re_found pattern f")
    case True
    with Cons.prems have "r2 = str_replace r1_tag r2_tag f"
      by (simp add: p)
    with True show ?thesis
      by (simp add: p Let_def)
  next
    case False
    with Cons show ?thesis
      by (simp add: p)
  qed
qed

lemma match_r1_first_None:
  assumes "first_r1_match f ps = None"
  shows "match_r1 ex root f ps st = (False, st)"
  using assms
proof (induction ps)
  case Nil
  then show ?case by simp
next
  case (Cons p ps)
  obtain pattern r1_tag r2_tag where p: "p = (pattern, r1_tag, r2_tag)"
    by (cases p)
  from Cons show ?case
    by (simp add: p split: if_splits)
qed

lemma first_r1_match_None_iff:
  "first_r1_match f ps = None \<longleftrightarrow> (\<forall>p \<in> set ps. \<not> re_found (fst p) f)"
  by (induction ps) (auto split: if_splits)

lemma expected_r2_file_None_iff:
  "expected_r2_file f = None \<longleftrightarrow> (\<forall>p \<in> set r1_patterns. \<not> re_found p f)"
  by (simp add: expected_r2_file_def first_r1_match_None_iff r1_patterns_def r2_subs_def)

lemma scan_file_pair:
  assumes "expected_r2_file f = Some r2" and "ex (path_join root r2)"
  shows "scan_file ex root f scan0 =
     \<lparr>samples = [(sample_name_of f, lane_of f, path_join root f, path_join root r2)],
      unmatched_r1 = [], warnings = []\<rparr>"
  using assms(2) match_r1_first_Some [OF assms(1) [unfolded expected_r2_file_def], of ex root scan0]
  by (simp add: scan_file_def scan0_def)

lemma scan_file_orphan:
  assumes "expected_r2_file f = Some r2" and "\<not> ex (path_join root r2)"
  shows "scan_file ex root f scan0 =
     \<lparr>samples = [], unmatched_r1 = [f], warnings = [No_matching_R2 f root]\<rparr>"
  using assms(2) match_r1_first_Some [OF assms(1) [unfolded expected_r2_file_def], of ex root scan0]
  by (simp add: scan_file_def scan0_def)

lemma scan_file_unrecognized:
  assumes "expected_r2_file f = None"
  shows "scan_file ex root f scan0 =
     \<lparr>samples = [], unmatched_r1 = [],
      warnings = (if re_found looks_like_r1_pattern f then [Looks_like_R1 f] else [])\<rparr>"
  using match_r1_first_None [OF assms [unfolded expected_r2_file_def], of ex root scan0]
  by (simp add: scan_file_def scan0_def)

text \<open>The examples of the specification.\<close>

lemma sampleA_facts:
  "expected_r2_file ''sampleA_L001_R1_001.fastq.gz'' = Some ''sampleA_L001_R2_001.fastq.gz''"
  "sample_name_of ''sampleA_L001_R1_001.fastq.gz'' = ''sampleA''"
  "lane_of ''sampleA_L001_R1_001.fastq.gz'' = ''001''"
  "expected_r2_file ''sampleA_L001_R2_001.fastq.gz'' = None"
  "\<not> re_found looks_like_r1_pattern ''sampleA_L001_R2_001.fastq.gz''"
  by code_simp+

lemma sampleA_example:
  assumes "exists (path_join root ''sampleA_L001_R2_001.fastq.gz'')"
  shows "collect_samples exists [(root, [''sampleA_L001_R1_001.fastq.gz'', ''sampleA_L001_R2_001.fastq.gz''])] =
     \<lparr>samples = [(''sampleA'', ''001'', path_join root ''sampleA_L001_R1_001.fastq.gz'',
                  path_join root ''sampleA_L001_R2_001.fastq.gz'')],
      unmatched_r1 = [], warnings = []\<rparr>"
  unfolding collect_samples_two_files
    scan_file_pair [where ex = exists, OF sampleA_facts(1) assms]
    scan_file_unrecognized [OF sampleA_facts(4)]
  by (simp add: sampleA_facts scan_append_def)



lemma sampleC_facts:
  "expected_r2_file ''sampleC_R1.fastq'' = Some ''sampleC_R2.fastq''"
  by code_simp

section \<open>The second-mate file and the sample name\<close>

text \<open>
  C1. The name of the second-mate file is \<open>f.replace(r1_tag, r2_tag)\<close>, which replaces
  every occurrence of the text of the tag in the name of the file, not only the mate
  tag that the pattern matched. For \<open>sample_10_1.fq.gz\<close> the name looked up is
  \<open>sample_20_2.fq.gz\<close> and not \<open>sample_10_2.fq.gz\<close>: in a directory that holds
  \<open>sample_10_1.fq.gz\<close> and its mate \<open>sample_10_2.fq.gz\<close> no pair is found and the first
  mate is reported as unmatched.
\<close>

theorem r2_file_replaces_every_tag:
  "expected_r2_file ''sample_10_1.fq.gz'' = Some ''sample_20_2.fq.gz''
   \<and> collect_samples (\<lambda>p. p \<in> {''d/sample_10_1.fq.gz'', ''d/sample_10_2.fq.gz''})
        [(''d'', [''sample_10_1.fq.gz'', ''sample_10_2.fq.gz''])] =
      \<lparr>samples = [], unmatched_r1 = [''sample_10_1.fq.gz''],
        warnings = [No_matching_R2 ''sample_10_1.fq.gz'' ''d'']\<rparr>"
  by code_simp

text \<open>
  C2. The patterns for first-mate files accept any ordinal block \<open>_<digits>\<close>, but the
  pattern that strips the sample name accepts \<open>_00<digit>\<close> only. For the pair
  \<open>sampleA_L001_R1_123.fastq.gz\<close>, \<open>sampleA_L001_R2_123.fastq.gz\<close> nothing is stripped:
  the sample name is the whole name of the first-mate file, with its lane token, mate
  tag, ordinal block and extension. (For \<open>sampleA_L001_R1_001.fastq.gz\<close> the sample
  name is \<open>sampleA\<close> and the lane \<open>001\<close>: lemma \<open>sampleA_example\<close>.)
\<close>

theorem sample_name_keeps_long_ordinal:
  "sample_name_of ''sampleA_L001_R1_123.fastq.gz'' = ''sampleA_L001_R1_123.fastq.gz''
   \<and> collect_samples (\<lambda>p. p \<in> {''d/sampleA_L001_R1_123.fastq.gz'', ''d/sampleA_L001_R2_123.fastq.gz''})
        [(''d'', [''sampleA_L001_R1_123.fastq.gz'', ''sampleA_L001_R2_123.fastq.gz''])] =
      \<lparr>samples = [(''sampleA_L001_R1_123.fastq.gz'', ''001'', ''d/sampleA_L001_R1_123.fastq.gz'',
                   ''d/sampleA_L001_R2_123.fastq.gz'')],
        unmatched_r1 = [], warnings = []\<rparr>"
  by code_simp

section \<open>Unmatched and skipped files\<close>

text \<open>
  C3. A file for which a first-mate pattern matches and whose second-mate file, as
  looked up, does not exist adds no pair and exactly one entry, its name, to the
  unmatched list, in its place in the order of the scan; the files before and after
  it are scanned as they are without it. With only \<open>sampleC_R1.fastq\<close> in a directory
  and no file \<open>sampleC_R2.fastq\<close>, the result is no pair and the one unmatched file
  \<open>sampleC_R1.fastq\<close>.
\<close>

theorem orphan_r1_reported:
  "(expected_r2_file f = Some r2 \<and> \<not> exists (path_join root r2) \<longrightarrow>
      samples (collect_samples exists (pre @ [(root, fs1 @ [f] @ fs2)] @ post))
        = samples (collect_samples exists (pre @ [(root, fs1 @ fs2)] @ post))
    \<and> unmatched_r1 (collect_samples exists (pre @ [(root, fs1 @ [f] @ fs2)] @ post))
        = unmatched_r1 (collect_samples exists (pre @ [(root, fs1)])) @ [f]
            @ unmatched_r1 (collect_samples exists ([(root, fs2)] @ post)))
   \<and> (\<not> exists' (path_join root' ''sampleC_R2.fastq'') \<longrightarrow>
      collect_samples exists' [(root', [''sampleC_R1.fastq''])] =
        \<lparr>samples = [], unmatched_r1 = [''sampleC_R1.fastq''],
          warnings = [No_matching_R2 ''sampleC_R1.fastq'' root']\<rparr>)"
proof (intro conjI impI)
  assume a: "expected_r2_file f = Some r2 \<and> \<not> exists (path_join root r2)"
  then have o: "scan_file exists root f scan0 =
      \<lparr>samples = [], unmatched_r1 = [f], warnings = [No_matching_R2 f root]\<rparr>"
    using scan_file_orphan [of f r2 exists root] by blast
  have s1: "collect_samples exists (pre @ [(root, fs1 @ [f] @ fs2)] @ post)
     = scan_append (collect_samples exists (pre @ [(root, fs1)]))
         (scan_append (scan_file exists root f scan0) (collect_samples exists ([(root, fs2)] @ post)))"
    by (rule collect_samples_split)
  have s2: "collect_samples exists (pre @ [(root, fs1 @ fs2)] @ post)
     = scan_append (collect_samples exists (pre @ [(root, fs1)])) (collect_samples exists ([(root, fs2)] @ post))"
    by (rule collect_samples_skip)
  show "samples (collect_samples exists (pre @ [(root, fs1 @ [f] @ fs2)] @ post))
        = samples (collect_samples exists (pre @ [(root, fs1 @ fs2)] @ post))"
    unfolding s1 s2 o by simp
  show "unmatched_r1 (collect_samples exists (pre @ [(root, fs1 @ [f] @ fs2)] @ post))
        = unmatched_r1 (collect_samples exists (pre @ [(root, fs1)])) @ [f]
            @ unmatched_r1 (collect_samples exists ([(root, fs2)] @ post))"
    unfolding s1 o by simp
next
  assume "\<not> exists' (path_join root' ''sampleC_R2.fastq'')"
  from scan_file_orphan [where ex = exists', OF sampleC_facts this]
  show "collect_samples exists' [(root', [''sampleC_R1.fastq''])] =
        \<lparr>samples = [], unmatched_r1 = [''sampleC_R1.fastq''],
          warnings = [No_matching_R2 ''sampleC_R1.fastq'' root']\<rparr>"
    by (simp add: collect_samples_file)
qed

theorem orphan_r1_reported_witness:
  "expected_r2_file ''sampleC_R1.fastq'' = Some ''sampleC_R2.fastq''
   \<and> \<not> (\<lambda>p. p = ''d/a_R2.fq'') (path_join ''d'' ''sampleC_R2.fastq'')
   \<and> samples (collect_samples (\<lambda>p. p = ''d/a_R2.fq'') [(''d'', [''a_R1.fq'', ''sampleC_R1.fastq'', ''a_R2.fq''])])
       = [(''a'', ''1'', ''d/a_R1.fq'', ''d/a_R2.fq'')]
   \<and> unmatched_r1 (collect_samples (\<lambda>p. p = ''d/a_R2.fq'') [(''d'', [''a_R1.fq'', ''sampleC_R1.fastq'', ''a_R2.fq''])])
       = [''sampleC_R1.fastq'']"
proof -
  let ?ex = "\<lambda>p. p = ''d/a_R2.fq''"
  have h: "expected_r2_file ''sampleC_R1.fastq'' = Some ''sampleC_R2.fastq''"
    "\<not> ?ex (path_join ''d'' ''sampleC_R2.fastq'')"
    by code_simp+
  have e: "samples (collect_samples ?ex ([] @ [(''d'', [''a_R1.fq''] @ [''a_R2.fq''])] @ []))
      = [(''a'', ''1'', ''d/a_R1.fq'', ''d/a_R2.fq'')]"
    "unmatched_r1 (collect_samples ?ex ([] @ [(''d'', [''a_R1.fq''])])) = []"
    "unmatched_r1 (collect_samples ?ex ([(''d'', [''a_R2.fq''])] @ [])) = []"
    by code_simp+
  from orphan_r1_reported [of "''sampleC_R1.fastq''" "''sampleC_R2.fastq''" ?ex "''d''"
      "[]" "[''a_R1.fq'']" "[''a_R2.fq'']" "[]" ?ex "''d''"] h
  have "samples (collect_samples ?ex ([] @ [(''d'', [''a_R1.fq''] @ [''sampleC_R1.fastq''] @ [''a_R2.fq''])] @ []))
        = samples (collect_samples ?ex ([] @ [(''d'', [''a_R1.fq''] @ [''a_R2.fq''])] @ []))"
    and "unmatched_r1 (collect_samples ?ex ([] @ [(''d'', [''a_R1.fq''] @ [''sampleC_R1.fastq''] @ [''a_R2.fq''])] @ []))
        = unmatched_r1 (collect_samples ?ex ([] @ [(''d'', [''a_R1.fq''])])) @ [''sampleC_R1.fastq'']
            @ unmatched_r1 (collect_samples ?ex ([(''d'', [''a_R2.fq''])] @ []))"
    by blast+
  then show ?thesis
    unfolding e using h by simp
qed

text \<open>
  C8. A file that the looser pattern finds and that neither first-mate pattern
  matches adds nothing to the pairs and nothing to the unmatched list: both lists are
  what they are without the file. It adds one warning, in its place in the log.
\<close>

theorem looks_like_r1_skipped:
  "re_found looks_like_r1_pattern f \<and> (\<forall>p \<in> set r1_patterns. \<not> re_found p f) \<longrightarrow>
      samples (collect_samples exists (pre @ [(root, fs1 @ [f] @ fs2)] @ post))
        = samples (collect_samples exists (pre @ [(root, fs1 @ fs2)] @ post))
    \<and> unmatched_r1 (collect_samples exists (pre @ [(root, fs1 @ [f] @ fs2)] @ post))
        = unmatched_r1 (collect_samples exists (pre @ [(root, fs1 @ fs2)] @ post))
    \<and> warnings (collect_samples exists (pre @ [(root, fs1 @ [f] @ fs2)] @ post))
        = warnings (collect_samples exists (pre @ [(root, fs1)])) @ [Looks_like_R1 f]
            @ warnings (collect_samples exists ([(root, fs2)] @ post))"
proof (intro impI)
  assume a: "re_found looks_like_r1_pattern f \<and> (\<forall>p \<in> set r1_patterns. \<not> re_found p f)"
  then have "expected_r2_file f = None"
    by (simp add: expected_r2_file_None_iff)
  from scan_file_unrecognized [OF this, of exists root] a
  have o: "scan_file exists root f scan0 = \<lparr>samples = [], unmatched_r1 = [], warnings = [Looks_like_R1 f]\<rparr>"
    by simp
  have s1: "collect_samples exists (pre @ [(root, fs1 @ [f] @ fs2)] @ post)
     = scan_append (collect_samples exists (pre @ [(root, fs1)]))
         (scan_append (scan_file exists root f scan0) (collect_samples exists ([(root, fs2)] @ post)))"
    by (rule collect_samples_split)
  have s2: "collect_samples exists (pre @ [(root, fs1 @ fs2)] @ post)
     = scan_append (collect_samples exists (pre @ [(root, fs1)])) (collect_samples exists ([(root, fs2)] @ post))"
    by (rule collect_samples_skip)
  show "samples (collect_samples exists (pre @ [(root, fs1 @ [f] @ fs2)] @ post))
        = samples (collect_samples exists (pre @ [(root, fs1 @ fs2)] @ post))
    \<and> unmatched_r1 (collect_samples exists (pre @ [(root, fs1 @ [f] @ fs2)] @ post))
        = unmatched_r1 (collect_samples exists (pre @ [(root, fs1 @ fs2)] @ post))
    \<and> warnings (collect_samples exists (pre @ [(root, fs1 @ [f] @ fs2)] @ post))
        = warnings (collect_samples exists (pre @ [(root, fs1)])) @ [Looks_like_R1 f]
            @ warnings (collect_samples exists ([(root, fs2)] @ post))"
    unfolding s1 s2 o by simp
qed

theorem looks_like_r1_skipped_witness:
  "re_found looks_like_r1_pattern ''sample_1.fastq.bz2''
   \<and> \<not> re_found (r1_patterns ! 0) ''sample_1.fastq.bz2''
   \<and> \<not> re_found (r1_patterns ! 1) ''sample_1.fastq.bz2''
   \<and> collect_samples (\<lambda>p. False) [(''d'', [''sample_1.fastq.bz2''])]
       = \<lparr>samples = [], unmatched_r1 = [], warnings = [Looks_like_R1 ''sample_1.fastq.bz2'']\<rparr>"
proof -
  have n: "\<not> re_found (r1_patterns ! 0) ''sample_1.fastq.bz2''"
    "\<not> re_found (r1_patterns ! 1) ''sample_1.fastq.bz2''"
    by code_simp+
  have "r1_patterns = [r1_patterns ! 0, r1_patterns ! 1]"
    by (simp add: r1_patterns_def)
  then have "set r1_patterns = {r1_patterns ! 0, r1_patterns ! 1}"
    by (metis list.simps(15) empty_set)
  with n have h: "re_found looks_like_r1_pattern ''sample_1.fastq.bz2''"
    "\<forall>p \<in> set r1_patterns. \<not> re_found p ''sample_1.fastq.bz2''"
    by (code_simp, simp)
  have e: "collect_samples (\<lambda>p. False) ([] @ [(''d'', [] @ [])] @ []) = \<lparr>samples = [], unmatched_r1 = [], warnings = []\<rparr>"
    "collect_samples (\<lambda>p. False) ([] @ [(''d'', [])]) = \<lparr>samples = [], unmatched_r1 = [], warnings = []\<rparr>"
    "collect_samples (\<lambda>p. False) ([(''d'', [])] @ []) = \<lparr>samples = [], unmatched_r1 = [], warnings = []\<rparr>"
    by (simp_all add: collect_samples_def)
  from looks_like_r1_skipped [of "''sample_1.fastq.bz2''" "\<lambda>p. False" "[]" "''d''" "[]" "[]" "[]"] h
  have "samples (collect_samples (\<lambda>p. False) [(''d'', [''sample_1.fastq.bz2''])]) = []"
    "unmatched_r1 (collect_samples (\<lambda>p. False) [(''d'', [''sample_1.fastq.bz2''])]) = []"
    "warnings (collect_samples (\<lambda>p. False) [(''d'', [''sample_1.fastq.bz2''])]) = [Looks_like_R1 ''sample_1.fastq.bz2'']"
    unfolding e by simp_all
  then have "collect_samples (\<lambda>p. False) [(''d'', [''sample_1.fastq.bz2''])]
       = \<lparr>samples = [], unmatched_r1 = [], warnings = [Looks_like_R1 ''sample_1.fastq.bz2'']\<rparr>"
    by (intro scan.equality) simp_all
  with h(1) n show ?thesis by blast
qed

section \<open>The lane\<close>

lemma rmatch_Plus_Digit_Nil: "rmatch (Plus Digit) [] g = []"
  by (subst rmatch_Plus) simp

lemma rmatch_Plus_Digit_Cons:
  "rmatch (Plus Digit) (x # xs) g = (if is_digit x then rmatch (Plus Digit) xs g @ [(xs, g)] else [])"
  by (subst rmatch_Plus) simp

lemma digits_then_OneOf_case:
  assumes "\<forall>c \<in> set cs. \<not> is_digit c"
  shows "concat (map (\<lambda>(s2, g2). rmatch (OneOf cs) s2 (h s2 g2)) (rmatch (Plus Digit) s g)) =
     (case dropWhile is_digit s of
        [] \<Rightarrow> []
      | c # rest \<Rightarrow> if takeWhile is_digit s \<noteq> [] \<and> c \<in> set cs then [(rest, h (c # rest) g)] else [])"
    (is "?L s = ?R s")
proof (induction s)
  case Nil
  show ?case by (simp add: rmatch_Plus_Digit_Nil)
next
  case (Cons x xs)
  show ?case
  proof (cases "is_digit x")
    case False
    then show ?thesis
      by (simp add: rmatch_Plus_Digit_Cons)
  next
    case True
    have step: "?L (x # xs) = ?L xs @ rmatch (OneOf cs) xs (h xs g)"
      using True by (simp add: rmatch_Plus_Digit_Cons del: rmatch.simps(4))
    have rhs: "?R (x # xs) =
        (case dropWhile is_digit xs of [] \<Rightarrow> []
         | c # rest \<Rightarrow> if c \<in> set cs then [(rest, h (c # rest) g)] else [])"
      using True by (simp cong: list.case_cong)
    show ?thesis
    proof (cases xs)
      case Nil
      show ?thesis
        unfolding step rhs Cons.IH unfolding Nil by simp
    next
      case (Cons y ys)
      show ?thesis
      proof (cases "is_digit y")
        case dy: True
        with assms have "y \<notin> set cs" by blast
        then have "rmatch (OneOf cs) xs (h xs g) = []"
          unfolding Cons by simp
        moreover have "?R xs =
          (case dropWhile is_digit xs of [] \<Rightarrow> []
           | c # rest \<Rightarrow> if c \<in> set cs then [(rest, h (c # rest) g)] else [])"
          using dy unfolding Cons by (simp cong: list.case_cong)
        ultimately show ?thesis
          unfolding step rhs Cons.IH by simp
      next
        case ny: False
        have "?R xs = []"
          using ny unfolding Cons by simp
        moreover have "rmatch (OneOf cs) xs (h xs g) = (if y \<in> set cs then [(ys, h xs g)] else [])"
          unfolding Cons by simp
        moreover have "(case dropWhile is_digit xs of [] \<Rightarrow> []
           | c # rest \<Rightarrow> if c \<in> set cs then [(rest, h (c # rest) g)] else [])
           = (if y \<in> set cs then [(ys, h xs g)] else [])"
          using ny unfolding Cons by simp
        ultimately show ?thesis
          unfolding step rhs Cons.IH by simp
      qed
    qed
  qed
qed

lemma digits_then_OneOf:
  assumes "\<forall>c \<in> set cs. \<not> is_digit c"
  shows "concat (map (\<lambda>(s2, g2). rmatch (OneOf cs) s2 (h s2 g2)) (rmatch (Plus Digit) s g)) =
     (if takeWhile is_digit s \<noteq> [] \<and> dropWhile is_digit s \<noteq> [] \<and> hd (dropWhile is_digit s) \<in> set cs
      then [(tl (dropWhile is_digit s), h (dropWhile is_digit s) g)] else [])"
  unfolding digits_then_OneOf_case [OF assms]
  by (cases "dropWhile is_digit s") (simp_all del: dropWhile_eq_Nil_conv)

lemma take_length_dropWhile:
  "take (length s - length (dropWhile P s)) s = takeWhile P s"
proof -
  have "length s = length (takeWhile P s) + length (dropWhile P s)"
    by (metis length_append takeWhile_dropWhile_id)
  then have "length s - length (dropWhile P s) = length (takeWhile P s)"
    by simp
  then show ?thesis
    by (simp add: takeWhile_eq_take [symmetric])
qed

lemma rmatch_group_digits:
  "rmatch (Seq (Grp n (Plus Digit)) (OneOf ''._'')) t g =
     (if takeWhile is_digit t \<noteq> [] \<and> dropWhile is_digit t \<noteq> []
         \<and> hd (dropWhile is_digit t) \<in> set ''._''
      then [(tl (dropWhile is_digit t), (n, takeWhile is_digit t) # g)] else [])"
proof -
  have nd: "\<forall>c \<in> set ''._''. \<not> is_digit c"
    by (simp add: is_digit_def)
  have "rmatch (Seq (Grp n (Plus Digit)) (OneOf ''._'')) t g =
      concat (map (\<lambda>(s2, g2). rmatch (OneOf ''._'') s2 ((n, take (length t - length s2) t) # g2))
        (rmatch (Plus Digit) t g))"
    by (simp add: map_map comp_def split_def del: rmatch.simps(4))
  also have "\<dots> =
     (if takeWhile is_digit t \<noteq> [] \<and> dropWhile is_digit t \<noteq> []
         \<and> hd (dropWhile is_digit t) \<in> set ''._''
      then [(tl (dropWhile is_digit t), (n, take (length t - length (dropWhile is_digit t)) t) # g)] else [])"
    by (rule digits_then_OneOf [OF nd])
  finally show ?thesis
    by (simp only: take_length_dropWhile)
qed

lemma rmatch_lane_pattern:
  "rmatch lane_pattern s [] =
     (if take 2 s = ''_L'' \<and> takeWhile is_digit (drop 2 s) \<noteq> [] \<and> dropWhile is_digit (drop 2 s) \<noteq> []
         \<and> hd (dropWhile is_digit (drop 2 s)) \<in> set ''._''
      then [(tl (dropWhile is_digit (drop 2 s)), [(1, takeWhile is_digit (drop 2 s))])] else [])"
proof -
  have "rmatch lane_pattern s [] =
     concat (map (\<lambda>(s', g'). rmatch (Seq (Grp 1 (Plus Digit)) (OneOf ''._'')) s' g') (rmatch (Str ''_L'') s []))"
    unfolding lane_pattern_def seqs.simps by (rule rmatch.simps(6))
  also have "\<dots> = (if take 2 s = ''_L'' then rmatch (Seq (Grp 1 (Plus Digit)) (OneOf ''._'')) (drop 2 s) [] else [])"
    by (simp add: numeral_2_eq_2 del: rmatch.simps(6))
  finally show ?thesis
    by (simp only: rmatch_group_digits) simp
qed






lemma re_search_rmatch:
  "re_search r s = Some (m, rest, g) \<Longrightarrow> \<exists>xs. rmatch r m [] = (rest, g) # xs"
proof (induction s)
  case Nil
  from re_search_unfold [OF Nil] show ?case
    by auto
next
  case (Cons c cs)
  from re_search_unfold [OF Cons.prems] Cons.IH show ?case
    by auto
qed

lemma lane_group_defined:
  assumes "re_search lane_pattern f = Some (m, rest, g)"
  shows "group g 1 = Some (takeWhile is_digit (drop 2 m))"
proof -
  from re_search_rmatch [OF assms] obtain xs where "rmatch lane_pattern m [] = (rest, g) # xs"
    by blast
  then have "g = [(1, takeWhile is_digit (drop 2 m))]"
    unfolding rmatch_lane_pattern by (simp split: if_splits)
  then show ?thesis
    by (simp add: group_def)
qed






section \<open>Patient identifiers and the manifest\<close>

lemma fold_ids_other:
  "k \<notin> set xs \<Longrightarrow> fold (\<lambda>(i, s) d. d(s \<mapsto> int i + 1)) (enumerate n xs) d0 k = d0 k"
  by (induction xs arbitrary: n d0) simp_all

lemma fold_ids_nth:
  "distinct xs \<Longrightarrow> i < length xs \<Longrightarrow>
     fold (\<lambda>(i, s) d. d(s \<mapsto> int i + 1)) (enumerate n xs) d0 (xs ! i) = Some (int (n + i) + 1)"
proof (induction xs arbitrary: n d0 i)
  case Nil
  then show ?case by simp
next
  case (Cons x xs)
  show ?case
  proof (cases i)
    case 0
    from Cons.prems have "x \<notin> set xs"
      by simp
    then have "fold (\<lambda>(i, s) d. d(s \<mapsto> int i + 1)) (enumerate (Suc n) xs) (d0(x \<mapsto> int n + 1)) x
        = (d0(x \<mapsto> int n + 1)) x"
      by (rule fold_ids_other)
    then have "fold (\<lambda>(i, s) d. d(s \<mapsto> int i + 1)) (enumerate (Suc n) xs) (d0(x \<mapsto> int n + 1)) x
        = Some (int n + 1)"
      by simp
    then show ?thesis
      by (simp add: 0 del: fun_upd_apply)
  next
    case (Suc j)
    with Cons.prems have "distinct xs" "j < length xs"
      by simp_all
    from Cons.IH [OF this, of "Suc n" "d0(x \<mapsto> int n + 1)"] Suc show ?thesis
      by simp
  qed
qed

lemma sample_names_props:
  "distinct (sample_names ss)" "sorted (sample_names ss)" "set (sample_names ss) = fst ` set ss"
  "length (sample_names ss) = card (fst ` set ss)"
proof -
  show d: "distinct (sample_names ss)" and "sorted (sample_names ss)"
    and s: "set (sample_names ss) = fst ` set ss"
    by (simp_all add: sample_names_def)
  show "length (sample_names ss) = card (fst ` set ss)"
    using distinct_card [OF d] s by simp
qed

lemma patient_ids_nth:
  "i < length (sample_names ss) \<Longrightarrow> patient_ids ss (sample_names ss ! i) = Some (int i + 1)"
  using fold_ids_nth [OF sample_names_props(1), of i ss 0 Map.empty]
  by (simp add: patient_ids_def sample_names_def)

lemma patient_ids_other:
  "k \<notin> fst ` set ss \<Longrightarrow> patient_ids ss k = None"
  using fold_ids_other [of k "sample_names ss" 0 Map.empty]
  by (simp add: patient_ids_def sample_names_def)

lemma patient_ids_Some:
  assumes "patient_ids ss k = Some p"
  shows "\<exists>i < length (sample_names ss). sample_names ss ! i = k \<and> p = int i + 1"
proof -
  have "k \<in> set (sample_names ss)"
    using assms patient_ids_other [of k ss]
    by (cases "k \<in> fst ` set ss") (auto simp: sample_names_props(3))
  then obtain i where i: "i < length (sample_names ss)" "sample_names ss ! i = k"
    by (auto simp: in_set_conv_nth)
  with patient_ids_nth [OF i(1)] assms have "p = int i + 1"
    by simp
  with i show ?thesis by blast
qed

lemma patient_ids_dom: "dom (patient_ids ss) = fst ` set ss"
proof (rule set_eqI)
  fix k
  show "k \<in> dom (patient_ids ss) \<longleftrightarrow> k \<in> fst ` set ss"
  proof
    assume "k \<in> dom (patient_ids ss)"
    then show "k \<in> fst ` set ss"
      using patient_ids_other [of k ss] by (cases "k \<in> fst ` set ss") auto
  next
    assume "k \<in> fst ` set ss"
    then have "k \<in> set (sample_names ss)"
      by (simp add: sample_names_props(3))
    then obtain i where "i < length (sample_names ss)" "sample_names ss ! i = k"
      by (auto simp: in_set_conv_nth)
    with patient_ids_nth [of i ss] show "k \<in> dom (patient_ids ss)"
      by auto
  qed
qed

lemma patient_ids_ran: "ran (patient_ids ss) = {1 .. int (card (fst ` set ss))}"
proof (rule set_eqI)
  fix v
  show "v \<in> ran (patient_ids ss) \<longleftrightarrow> v \<in> {1 .. int (card (fst ` set ss))}"
  proof
    assume "v \<in> ran (patient_ids ss)"
    then obtain k where "patient_ids ss k = Some v"
      by (auto simp: ran_def)
    from patient_ids_Some [OF this] show "v \<in> {1 .. int (card (fst ` set ss))}"
      by (auto simp: sample_names_props(4))
  next
    assume v: "v \<in> {1 .. int (card (fst ` set ss))}"
    then have "nat (v - 1) < length (sample_names ss)"
      by (auto simp: sample_names_props(4))
    from patient_ids_nth [OF this] v
    have "patient_ids ss (sample_names ss ! nat (v - 1)) = Some v"
      by simp
    then show "v \<in> ran (patient_ids ss)"
      by (auto simp: ran_def)
  qed
qed

lemma patient_ids_mono:
  assumes "patient_ids ss s = Some p" "patient_ids ss t = Some q" "s < t"
  shows "p < q"
proof -
  from patient_ids_Some [OF assms(1)] obtain i
    where i: "i < length (sample_names ss)" "sample_names ss ! i = s" "p = int i + 1"
    by blast
  from patient_ids_Some [OF assms(2)] obtain j
    where j: "j < length (sample_names ss)" "sample_names ss ! j = t" "q = int j + 1"
    by blast
  have "i < j"
  proof (rule ccontr)
    assume "\<not> i < j"
    then have "j \<le> i" by simp
    from sorted_nth_mono [OF sample_names_props(2) this i(1)] i(2) j(2) assms(3)
    show False by simp
  qed
  with i(3) j(3) show ?thesis by simp
qed

lemma patient_ids_cong:
  assumes "fst ` set ss = fst ` set ss'"
  shows "patient_ids ss = patient_ids ss'"
proof -
  have "sort (remdups (map fst ss)) = sorted_list_of_set (set (map fst ss))"
    by (simp only: sorted_list_of_set_sort_remdups)
  moreover have "sort (remdups (map fst ss')) = sorted_list_of_set (set (map fst ss'))"
    by (simp only: sorted_list_of_set_sort_remdups)
  ultimately have "sort (remdups (map fst ss)) = sort (remdups (map fst ss'))"
    using assms by simp
  then show ?thesis
    by (simp add: patient_ids_def)
qed

text \<open>
  C4. The dictionary \<open>patient_ids\<close> is defined exactly on the sample names of the pairs;
  its values are the integers from 1 to the number of distinct sample names, with no
  gap; a sample name that is smaller in the order of strings has the smaller
  identifier; and the dictionary depends on the set of the sample names only, so that
  the same pairs, in any order, give the same dictionary. (One name has one
  identifier, the dictionary being a function of the name.)
\<close>

theorem patient_ids_dense_ordered:
  "dom (patient_ids ss) = fst ` set ss
   \<and> ran (patient_ids ss) = {1 .. int (card (fst ` set ss))}
   \<and> (\<forall>s t p q. patient_ids ss s = Some p \<and> patient_ids ss t = Some q \<and> s < t \<longrightarrow> p < q)
   \<and> (fst ` set ss = fst ` set ss' \<longrightarrow> patient_ids ss = patient_ids ss')"
  using patient_ids_dom [of ss] patient_ids_ran [of ss] patient_ids_mono [of ss] patient_ids_cong [of ss ss']
  by blast

theorem patient_ids_dense_ordered_witness:
  "patient_ids [(''tumour'', ''2'', ''a'', ''b''), (''normal'', ''1'', ''c'', ''d''), (''tumour'', ''1'', ''e'', ''f'')] ''normal'' = Some 1
   \<and> patient_ids [(''tumour'', ''2'', ''a'', ''b''), (''normal'', ''1'', ''c'', ''d''), (''tumour'', ''1'', ''e'', ''f'')] ''tumour'' = Some 2
   \<and> ''normal'' < ''tumour''
   \<and> ran (patient_ids [(''tumour'', ''2'', ''a'', ''b''), (''normal'', ''1'', ''c'', ''d''), (''tumour'', ''1'', ''e'', ''f'')]) = {1 .. 2}"
proof -
  let ?ss = "[(''tumour'', ''2'', ''a'', ''b''), (''normal'', ''1'', ''c'', ''d''), (''tumour'', ''1'', ''e'', ''f'')]
    :: sample list"
  have v: "patient_ids ?ss ''normal'' = Some 1" "patient_ids ?ss ''tumour'' = Some 2" "''normal'' < ''tumour''"
    by code_simp+
  have "fst ` set ?ss = {''tumour'', ''normal''}"
    by auto
  then have c: "card (fst ` set ?ss) = 2"
    by simp
  from patient_ids_dense_ordered [of ?ss ?ss] have "ran (patient_ids ?ss) = {1 .. int (card (fst ` set ?ss))}"
    by blast
  then have "ran (patient_ids ?ss) = {1 .. 2}"
    unfolding c by simp
  with v show ?thesis by blast
qed

lemma write_rows_ok:
  assumes "\<forall>x \<in> set xs. fst x \<in> dom ids"
  shows "\<exists>rows. write_rows ids xs out = Inr (out @ rows) \<and> list_all2 (data_row ids) rows xs"
  using assms
proof (induction xs arbitrary: out)
  case Nil
  then show ?case by simp
next
  case (Cons x xs)
  obtain sample_name lane r1 r2 where x: "x = (sample_name, lane, r1, r2)"
    by (cases x)
  from Cons.prems obtain p where p: "ids sample_name = Some p"
    by (auto simp: x)
  let ?r = "[Int_cell p, Str_cell sample_name, Str_cell lane, Str_cell r1, Str_cell r2]"
  from Cons.prems have "\<forall>x \<in> set xs. fst x \<in> dom ids"
    by simp
  from Cons.IH [OF this, of "out @ [?r]"] obtain rows
    where rows: "write_rows ids xs (out @ [?r]) = Inr ((out @ [?r]) @ rows)"
      and all: "list_all2 (data_row ids) rows xs"
    by blast
  have "write_rows ids (x # xs) out = Inr (out @ (?r # rows))"
    using rows by (simp add: x p)
  moreover have "list_all2 (data_row ids) (?r # rows) (x # xs)"
    using all by (simp add: data_row_def x p)
  ultimately show ?case by blast
qed

lemma write_csv_ok:
  "\<exists>rows. write_csv ss = Inr (header_row # rows, patient_ids ss)
     \<and> list_all2 (data_row (patient_ids ss)) rows (sort ss)"
proof -
  have "\<forall>x \<in> set (sort ss). fst x \<in> dom (patient_ids ss)"
    by (simp add: patient_ids_dom)
  from write_rows_ok [OF this, of "[header_row]"] show ?thesis
    by (auto simp: write_csv_def Let_def)
qed

lemma sorted_by_name_lane:
  fixes xs :: "sample list"
  assumes "sorted xs"
  shows "sorted (map (\<lambda>(sample_name, lane, r1, r2). (sample_name, lane)) xs)"
  by (rule sorted_map_mono [OF assms]) (auto simp: mono_on_def less_eq_prod_def less_prod_def)

text \<open>
  C5. \<open>write_csv\<close> raises no error. It writes the header row
  \<open>patient,sample,lane,fastq_1,fastq_2\<close> and then one row for each pair, in the order
  of the sorted list of the pairs (a rearrangement of the pairs); the row of a pair
  holds the identifier that \<open>patient_ids\<close> gives its sample name, the sample name, the
  lane and the two paths. The rows are in ascending order of (sample name, lane),
  both compared as strings.
\<close>

theorem write_csv_manifest:
  "\<exists>rows. write_csv ss = Inr (header_row # rows, patient_ids ss)
     \<and> header_row = [Str_cell ''patient'', Str_cell ''sample'', Str_cell ''lane'', Str_cell ''fastq_1'', Str_cell ''fastq_2'']
     \<and> list_all2 (data_row (patient_ids ss)) rows (sort ss)
     \<and> mset (sort ss) = mset ss
     \<and> sorted (map (\<lambda>(sample_name, lane, r1, r2). (sample_name, lane)) (sort ss))"
proof -
  from write_csv_ok [of ss] obtain rows
    where "write_csv ss = Inr (header_row # rows, patient_ids ss)"
      and "list_all2 (data_row (patient_ids ss)) rows (sort ss)"
    by blast
  moreover have "sorted (map (\<lambda>(sample_name, lane, r1, r2). (sample_name, lane)) (sort ss))"
    by (rule sorted_by_name_lane) simp
  ultimately show ?thesis
    by (auto simp: header_row_def)
qed

theorem write_csv_manifest_witness:
  "\<exists>ids. write_csv [(''b'', ''2'', ''d/b_L2_1.fq'', ''d/b_L2_2.fq''), (''a'', ''1'', ''d/a_1.fq'', ''d/a_2.fq''),
               (''b'', ''10'', ''d/b_L10_1.fq'', ''d/b_L10_2.fq'')] =
     Inr ([[Str_cell ''patient'', Str_cell ''sample'', Str_cell ''lane'', Str_cell ''fastq_1'', Str_cell ''fastq_2''],
           [Int_cell 1, Str_cell ''a'', Str_cell ''1'', Str_cell ''d/a_1.fq'', Str_cell ''d/a_2.fq''],
           [Int_cell 2, Str_cell ''b'', Str_cell ''10'', Str_cell ''d/b_L10_1.fq'', Str_cell ''d/b_L10_2.fq''],
           [Int_cell 2, Str_cell ''b'', Str_cell ''2'', Str_cell ''d/b_L2_1.fq'', Str_cell ''d/b_L2_2.fq'']], ids)"
proof -
  let ?ss = "[(''b'', ''2'', ''d/b_L2_1.fq'', ''d/b_L2_2.fq''), (''a'', ''1'', ''d/a_1.fq'', ''d/a_2.fq''),
               (''b'', ''10'', ''d/b_L10_1.fq'', ''d/b_L10_2.fq'')] :: sample list"
  have s: "sort ?ss = [(''a'', ''1'', ''d/a_1.fq'', ''d/a_2.fq''), (''b'', ''10'', ''d/b_L10_1.fq'', ''d/b_L10_2.fq''),
      (''b'', ''2'', ''d/b_L2_1.fq'', ''d/b_L2_2.fq'')]"
    by code_simp
  have v: "patient_ids ?ss ''a'' = Some 1" "patient_ids ?ss ''b'' = Some 2"
    by code_simp+
  from write_csv_manifest [of ?ss] obtain rows
    where w: "write_csv ?ss = Inr (header_row # rows, patient_ids ?ss)"
      and r: "list_all2 (data_row (patient_ids ?ss)) rows (sort ?ss)"
    by blast
  from r have "rows = [[Int_cell 1, Str_cell ''a'', Str_cell ''1'', Str_cell ''d/a_1.fq'', Str_cell ''d/a_2.fq''],
           [Int_cell 2, Str_cell ''b'', Str_cell ''10'', Str_cell ''d/b_L10_1.fq'', Str_cell ''d/b_L10_2.fq''],
           [Int_cell 2, Str_cell ''b'', Str_cell ''2'', Str_cell ''d/b_L2_1.fq'', Str_cell ''d/b_L2_2.fq'']]"
    unfolding s by (auto simp: list_all2_Cons2 data_row_def v)
  with w show ?thesis
    by (simp add: header_row_def)
qed

lemma write_csv_mset:
  assumes "mset ss = mset ss'"
  shows "write_csv ss = write_csv ss'"
proof -
  have "set ss = set ss'"
    using assms by (rule mset_eq_setD)
  then have "patient_ids ss = patient_ids ss'"
    by (intro patient_ids_cong) simp
  moreover have "sort ss' = sort ss"
    by (rule properties_for_sort) (simp_all add: assms)
  ultimately show ?thesis
    by (simp add: write_csv_def)
qed

lemma samples_collect_walk_files:
  "samples (collect_samples ex w) = concat (map (\<lambda>(root, f). samples (scan_file ex root f scan0)) (walk_files w))"
proof (induction w)
  case Nil
  show ?case by (simp add: collect_samples_Nil walk_files_def)
next
  case (Cons d w)
  obtain root files where d: "d = (root, files)" by (cases d)
  have files: "samples (collect_samples ex [(root, files)])
      = concat (map (\<lambda>f. samples (scan_file ex root f scan0)) files)"
  proof (induction files)
    case Nil
    show ?case by (simp add: collect_samples_scan_dirs scan_dirs_def)
  next
    case (Cons f files)
    have "collect_samples ex [(root, [f] @ files)]
        = scan_append (collect_samples ex [(root, [f])]) (collect_samples ex [(root, files)])"
      by (rule collect_samples_dir_app)
    with Cons show ?case
      by (simp add: collect_samples_file)
  qed
  have "collect_samples ex ([d] @ w) = scan_append (collect_samples ex [d]) (collect_samples ex w)"
    by (rule collect_samples_app)
  with Cons files show ?case
    by (simp add: d walk_files_def comp_def)
qed

lemma mset_concat_map_perm:
  assumes "mset xs = mset ys"
  shows "mset (concat (map g xs)) = mset (concat (map g ys))"
proof -
  have "mset (concat (map g zs)) = (\<Sum>x\<in>#mset zs. mset (g x))" for zs
    by (induction zs) simp_all
  with assms show ?thesis by simp
qed

lemma generate_manifest_perm:
  assumes "mset (walk_files w1) = mset (walk_files w2)"
  shows "generate_manifest ex w1 = generate_manifest ex w2"
  unfolding generate_manifest_def samples_collect_walk_files
  by (rule write_csv_mset) (rule mset_concat_map_perm [OF assms])

text \<open>
  C7. The manifest, and the dictionary returned with it, are a function of the
  directory contents: two walks that list the same files in the same directories,
  in whatever order, with the same answers of \<open>os.path.exists\<close>, give the same result.
\<close>

theorem manifest_independent_of_listing_order:
  "mset (walk_files w1) = mset (walk_files w2) \<Longrightarrow> generate_manifest exists w1 = generate_manifest exists w2"
  by (rule generate_manifest_perm)

theorem manifest_independent_of_listing_order_witness:
  "mset (walk_files [(''d'', [''a_1.fq'', ''a_2.fq'']), (''d/sub'', [''b_R1.fastq'', ''b_R2.fastq''])])
     = mset (walk_files [(''d/sub'', [''b_R2.fastq'', ''b_R1.fastq'']), (''d'', [''a_2.fq'', ''a_1.fq''])])
   \<and> generate_manifest (\<lambda>p. True) [(''d'', [''a_1.fq'', ''a_2.fq'']), (''d/sub'', [''b_R1.fastq'', ''b_R2.fastq''])]
     = generate_manifest (\<lambda>p. True) [(''d/sub'', [''b_R2.fastq'', ''b_R1.fastq'']), (''d'', [''a_2.fq'', ''a_1.fq''])]"
proof -
  have m: "mset (walk_files [(''d'', [''a_1.fq'', ''a_2.fq'']), (''d/sub'', [''b_R1.fastq'', ''b_R2.fastq''])])
     = mset (walk_files [(''d/sub'', [''b_R2.fastq'', ''b_R1.fastq'']), (''d'', [''a_2.fq'', ''a_1.fq''])])"
    by (simp add: walk_files_def)
  from manifest_independent_of_listing_order [OF m, of "\<lambda>p. True"] m show ?thesis
    by blast
qed

section \<open>The required keys of the configuration\<close>






end
